theory Spec2Isabelle
  imports Main "HOL-Library.Word"
begin

unbundle bit_operations_syntax

section \<open>Outcomes of a Go call\<close>

text \<open>
  A Go function either returns, panics (with a message), or stays blocked on a mutex
  or a channel. Every operation below yields one of the three.
\<close>

datatype 'a outcome = Returned 'a | Panicked string | Blocked

text \<open>Whether the call came back to its caller.\<close>

fun returned :: "'a outcome \<Rightarrow> bool" where
  "returned (Returned x) = True"
| "returned (Panicked msg) = False"
| "returned Blocked = False"

section \<open>The punish request and its signature (channel\_punish\_test.go)\<close>

subsection \<open>Bytes, fixed-size arrays, big-endian numbers\<close>

type_synonym byte = "8 word"

text \<open>\<open>common.Hash\<close> is \<open>[32]byte\<close> and \<open>common.Address\<close> is \<open>[20]byte\<close>;
  \<open>Hash_bytes h\<close> is the slice \<open>h[:]\<close>.\<close>

typedef Hash = "{bs :: byte list. length bs = 32}"
  morphisms Hash_bytes Hash_of
  by (rule exI [of _ "replicate 32 0"]) simp

typedef Address = "{bs :: byte list. length bs = 20}"
  morphisms Address_bytes Address_of
  by (rule exI [of _ "replicate 20 0"]) simp

text \<open>Modelled from the spec: the declaration of \<open>contracts.ChannelIdentifier\<close> is not
  among the sources; the code slices it with \<open>[:]\<close> and the specification gives the
  channel identifier 32 bytes, so it is the same array type as a hash.\<close>

type_synonym ChannelIdentifier = Hash

text \<open>The number a byte string denotes when read most significant byte first.\<close>

definition be_value :: "byte list \<Rightarrow> nat" where
  "be_value bs = foldl (\<lambda>acc b. 256 * acc + unat b) 0 bs"

text \<open>\<open>binary.BigEndian.PutUint64\<close>, which \<open>binary.Write\<close> uses for a \<open>uint64\<close>:
  \<open>b[0] = byte(v >> 56)\<close>, ..., \<open>b[7] = byte(v)\<close>.\<close>

definition BigEndian_PutUint64 :: "64 word \<Rightarrow> byte list" where
  "BigEndian_PutUint64 v =
     [ucast (drop_bit 56 v), ucast (drop_bit 48 v), ucast (drop_bit 40 v),
      ucast (drop_bit 32 v), ucast (drop_bit 24 v), ucast (drop_bit 16 v),
      ucast (drop_bit 8 v), ucast v]"

text \<open>The \<open>n\<close> low-order base-256 digits of an integer, most significant first.\<close>

fun be_bytes :: "nat \<Rightarrow> int \<Rightarrow> byte list" where
  "be_bytes 0 i = []"
| "be_bytes (Suc n) i = be_bytes n (i div 256) @ [of_int i]"

text \<open>Modelled from the spec: \<open>utils.BigIntTo32Bytes\<close> is not among the sources. The
  specification calls its result "32 bytes, big-endian integer"; that fixes the result
  for \<open>0 \<le> i < 2 ^ 256\<close>. Outside that range the definition keeps the 32 low-order
  digits, which nothing below relies on.\<close>

definition BigIntTo32Bytes :: "int \<Rightarrow> byte list" where
  "BigIntTo32Bytes i = be_bytes 32 i"

subsection \<open>The request and \<open>sign\<close>\<close>

text \<open>The struct. The \<open>*big.Int\<close> fields are integers: \<open>sign\<close> reads \<open>ChainID\<close>
  of a request whose fields are set, as the test builds it.\<close>

record ObseleteUnlockForContract =
  ChannelIdentifier :: ChannelIdentifier
  BeneficiaryAddress :: Address
  LockHash :: Hash
  BeneficiaryTransferredAmount :: int
  BeneficiaryNonce :: int
  AdditionalHash :: Hash
  TokenNetworkAddress :: Address
  ChainID :: int
  OpenBlockNumber :: "64 word"
  MerkleProof :: "byte list"

text \<open>\<open>bytes.Buffer\<close>: \<open>new(bytes.Buffer)\<close> is empty and \<open>Write\<close> appends.\<close>

type_synonym Buffer = "byte list"

definition Buffer_new :: Buffer where
  "Buffer_new = []"

definition Buffer_Write :: "Buffer \<Rightarrow> byte list \<Rightarrow> Buffer" where
  "Buffer_Write buf p = buf @ p"

definition binary_Write_BigEndian :: "Buffer \<Rightarrow> 64 word \<Rightarrow> Buffer" where
  "binary_Write_BigEndian buf v = Buffer_Write buf (BigEndian_PutUint64 v)"

text \<open>The buffer \<open>sign\<close> has filled when it calls \<open>utils.SignData\<close>. The write of the
  token network address is commented out in the source and so is absent here.\<close>

definition sign_buf :: "ObseleteUnlockForContract \<Rightarrow> Buffer" where
  "sign_buf w =
     (let buf = Buffer_new;
          buf = Buffer_Write buf (Hash_bytes (LockHash w));
          buf = Buffer_Write buf (Hash_bytes (ChannelIdentifier w));
          buf = binary_Write_BigEndian buf (OpenBlockNumber w);
          buf = Buffer_Write buf (BigIntTo32Bytes (ChainID w));
          buf = Buffer_Write buf (Hash_bytes (AdditionalHash w))
      in buf)"

text \<open>\<open>utils.SignData\<close> (hash, then sign with the key) is not among the sources and is
  a parameter: it returns the signature (\<open>Inr\<close>) or an error (\<open>Inl\<close>). \<open>sign\<close> has
  the single result \<open>[]byte\<close>; on an error it calls \<open>panic(err)\<close>.\<close>

definition sign ::
  "('key \<Rightarrow> byte list \<Rightarrow> string + byte list) \<Rightarrow> ObseleteUnlockForContract \<Rightarrow> 'key
    \<Rightarrow> byte list outcome" where
  "sign SignData w key =
     (case SignData key (sign_buf w) of
        Inl err \<Rightarrow> Panicked err
      | Inr sig \<Rightarrow> Returned sig)"

section \<open>The reconnecting client (safeethclient.go)\<close>

subsection \<open>Go maps, channels and the heap\<close>

text \<open>
  A Go map is kept as an association list read with \<open>map_of\<close>. Assignment replaces
  the entry of the key, \<open>delete\<close> removes it, and \<open>range\<close> visits every key once
  with its value. Go leaves the order of \<open>range\<close> open; here it is the order of the
  list, and the statements below hold for every list.
\<close>

type_synonym ('k, 'v) gomap = "('k \<times> 'v) list"

definition map_delete :: "('k, 'v) gomap \<Rightarrow> 'k \<Rightarrow> ('k, 'v) gomap" where
  "map_delete m k = filter (\<lambda>e. fst e \<noteq> k) m"

definition map_store :: "('k, 'v) gomap \<Rightarrow> 'k \<Rightarrow> 'v \<Rightarrow> ('k, 'v) gomap" where
  "map_store m k v = (k, v) # map_delete m k"

fun map_entries :: "('k, 'v) gomap \<Rightarrow> ('k \<times> 'v) list" where
  "map_entries [] = []"
| "map_entries (e # m) = e # map_entries (filter (\<lambda>f. fst f \<noteq> fst e) m)"

text \<open>
  A \<open>chan struct{}\<close>: its capacity, the number of signals queued in it, and whether it
  has been closed. The values carry no data, so the queue is a count.
\<close>

record chan =
  cap :: nat
  buf :: nat
  closed :: bool

type_synonym chan_ref = nat

text \<open>A connection, as \<open>ethclient.Dial\<close> returns it.\<close>

type_synonym ethclient = nat

datatype ConnectionStatus = ConnectionOk | ConnectionFailed

text \<open>
  The struct. \<open>Client\<close> is the embedded \<open>*ethclient.Client\<close> (\<open>None\<close> is nil),
  \<open>lock\<close> tells whether the mutex is held, \<open>ReConnect\<close> maps a name to a channel.
  \<open>NewSafeClient\<close> is the only place where the struct is built, and it makes the map:
  the map is never nil.
\<close>

record SafeEthClient =
  Client :: "ethclient option"
  lock :: bool
  url :: string
  ReConnect :: "(string, chan_ref) gomap"
  Status :: ConnectionStatus

text \<open>
  The heap holds every \<open>SafeEthClient\<close> and every channel that has been allocated; a
  pointer is an index, and allocation appends. An index beyond the heap stands for nil.
\<close>

record heap =
  clients :: "SafeEthClient list"
  chans :: "chan list"

definition upd_client :: "nat \<Rightarrow> (SafeEthClient \<Rightarrow> SafeEthClient) \<Rightarrow> heap \<Rightarrow> heap" where
  "upd_client p f h = h\<lparr>clients := (clients h)[p := f (clients h ! p)]\<rparr>"

definition nil_dereference :: string where
  "nil_dereference = ''invalid memory address or nil pointer dereference''"

subsection \<open>Channel operations\<close>

text \<open>
  \<open>make(chan struct{}, n)\<close>; \<open>c <- struct{}{}\<close>; \<open>close(c)\<close>; \<open><-c\<close>. A send on a
  closed channel panics, a send on a channel with room queues the signal, and a send on a
  full or nil channel waits for a receiver: with no receiver in the model it stays blocked.
\<close>

definition chan_make :: "nat \<Rightarrow> chan list \<Rightarrow> chan list \<times> chan_ref" where
  "chan_make n cs = (cs @ [\<lparr>cap = n, buf = 0, closed = False\<rparr>], length cs)"

definition chan_send :: "chan_ref \<Rightarrow> chan list \<Rightarrow> chan list \<times> unit outcome" where
  "chan_send c cs =
     (if length cs \<le> c then (cs, Blocked)
      else if closed (cs ! c) then (cs, Panicked ''send on closed channel'')
      else if buf (cs ! c) < cap (cs ! c)
        then (cs[c := (cs ! c)\<lparr>buf := buf (cs ! c) + 1\<rparr>], Returned ())
      else (cs, Blocked))"

definition chan_close :: "chan_ref \<Rightarrow> chan list \<Rightarrow> chan list \<times> unit outcome" where
  "chan_close c cs =
     (if length cs \<le> c then (cs, Panicked ''close of nil channel'')
      else if closed (cs ! c) then (cs, Panicked ''close of closed channel'')
      else (cs[c := (cs ! c)\<lparr>closed := True\<rparr>], Returned ()))"

text \<open>A receive yields \<open>True\<close> for a queued signal and \<open>False\<close> for the zero value
  of a closed, drained channel.\<close>

definition chan_recv :: "chan_ref \<Rightarrow> chan list \<Rightarrow> chan list \<times> bool outcome" where
  "chan_recv c cs =
     (if length cs \<le> c then (cs, Blocked)
      else if 0 < buf (cs ! c)
        then (cs[c := (cs ! c)\<lparr>buf := buf (cs ! c) - 1\<rparr>], Returned True)
      else if closed (cs ! c) then (cs, Returned False)
      else (cs, Blocked))"

subsection \<open>The mutex\<close>

definition Lock :: "nat \<Rightarrow> heap \<Rightarrow> heap \<times> unit outcome" where
  "Lock p h =
     (if length (clients h) \<le> p then (h, Panicked nil_dereference)
      else if lock (clients h ! p) then (h, Blocked)
      else (upd_client p (\<lambda>c. c\<lparr>lock := True\<rparr>) h, Returned ()))"

text \<open>Every \<open>Unlock\<close> in the source follows a \<open>Lock\<close> of the same goroutine.\<close>

definition Unlock :: "nat \<Rightarrow> heap \<Rightarrow> heap" where
  "Unlock p h = upd_client p (\<lambda>c. c\<lparr>lock := False\<rparr>) h"

subsection \<open>\<open>NewSafeClient\<close>\<close>

text \<open>
  \<open>ethclient.Dial\<close> is a parameter: it gives a connection (\<open>Inr\<close>) or an error
  (\<open>Inl\<close>), and a nil client with the error. The result is the pointer and the error.
\<close>

definition NewSafeClient ::
  "(string \<Rightarrow> string + ethclient) \<Rightarrow> string \<Rightarrow> heap \<Rightarrow> heap \<times> (nat \<times> string option)" where
  "NewSafeClient Dial rawurl h =
     (let p = length (clients h);
          c = \<lparr>Client = None, lock = False, url = [], ReConnect = [],
               Status = ConnectionOk\<rparr>;
          c = c\<lparr>ReConnect := []\<rparr>;
          c = c\<lparr>url := rawurl\<rparr>;
          (c, err) = (case Dial rawurl of
                        Inl e \<Rightarrow> (c\<lparr>Client := None\<rparr>, Some e)
                      | Inr cl \<Rightarrow> (c\<lparr>Client := Some cl\<rparr>, None));
          c = (if err = None then c\<lparr>Status := ConnectionOk\<rparr>
               else c\<lparr>Status := ConnectionFailed\<rparr>)
      in (h\<lparr>clients := clients h @ [c]\<rparr>, (p, err)))"

subsection \<open>\<open>RegisterReConnectNotify\<close>\<close>

definition RegisterReConnectNotify :: "nat \<Rightarrow> string \<Rightarrow> heap \<Rightarrow> heap \<times> chan_ref outcome" where
  "RegisterReConnectNotify p name h =
     (case Lock p h of
        (h, Returned _) \<Rightarrow>
          (case map_of (ReConnect (clients h ! p)) name of
             Some ch \<Rightarrow> (Unlock p h, Returned ch)
           | None \<Rightarrow>
               (let (cs, ch) = chan_make 1 (chans h);
                    h = h\<lparr>chans := cs\<rparr>;
                    h = upd_client p (\<lambda>c. c\<lparr>ReConnect := map_store (ReConnect c) name ch\<rparr>) h
                in (Unlock p h, Returned ch)))
      | (h, Panicked msg) \<Rightarrow> (h, Panicked msg)
      | (h, Blocked) \<Rightarrow> (h, Blocked))"

subsection \<open>\<open>RecoverDisconnect\<close>\<close>

text \<open>The \<open>range\<close> loop: note the name, send one signal, close the channel.\<close>

fun notify_range ::
  "(string \<times> chan_ref) list \<Rightarrow> string list \<Rightarrow> chan list
    \<Rightarrow> (string list \<times> chan list) \<times> unit outcome" where
  "notify_range [] keys cs = ((keys, cs), Returned ())"
| "notify_range ((name, c) # es) keys cs =
     (let keys = keys @ [name] in
      case chan_send c cs of
        (cs, Returned _) \<Rightarrow>
          (case chan_close c cs of
             (cs, Returned _) \<Rightarrow> notify_range es keys cs
           | (cs, Panicked msg) \<Rightarrow> ((keys, cs), Panicked msg)
           | (cs, Blocked) \<Rightarrow> ((keys, cs), Blocked))
      | (cs, Panicked msg) \<Rightarrow> ((keys, cs), Panicked msg)
      | (cs, Blocked) \<Rightarrow> ((keys, cs), Blocked))"

text \<open>The second loop: \<open>delete(c.ReConnect, name)\<close> for every noted name.\<close>

definition delete_keys :: "string list \<Rightarrow> (string, chan_ref) gomap \<Rightarrow> (string, chan_ref) gomap" where
  "delete_keys keys m = fold (\<lambda>name m. map_delete m name) keys m"

text \<open>The first statement: the status is set without the mutex.\<close>

definition mark_failed :: "nat \<Rightarrow> heap \<Rightarrow> heap" where
  "mark_failed p h = upd_client p (\<lambda>c. c\<lparr>Status := ConnectionFailed\<rparr>) h"

text \<open>
  The branch taken once a dial has succeeded with connection \<open>cl\<close>. A panic or a
  blocked send inside leaves the mutex held: this function releases it by a plain call
  at its end, not by \<open>defer\<close>.
\<close>

definition reconnected :: "nat \<Rightarrow> ethclient \<Rightarrow> heap \<Rightarrow> heap \<times> unit outcome" where
  "reconnected p cl h =
     (let h = upd_client p (\<lambda>c. c\<lparr>Status := ConnectionOk\<rparr>) h in
      case Lock p h of
        (h, Returned _) \<Rightarrow>
          (let h = upd_client p (\<lambda>c. c\<lparr>Client := Some cl\<rparr>) h in
           case notify_range (map_entries (ReConnect (clients h ! p))) [] (chans h) of
             ((keys, cs), Returned _) \<Rightarrow>
               (let h = h\<lparr>chans := cs\<rparr>;
                    h = upd_client p (\<lambda>c. c\<lparr>ReConnect := delete_keys keys (ReConnect c)\<rparr>) h
                in (Unlock p h, Returned ()))
           | ((keys, cs), Panicked msg) \<Rightarrow> (h\<lparr>chans := cs\<rparr>, Panicked msg)
           | ((keys, cs), Blocked) \<Rightarrow> (h\<lparr>chans := cs\<rparr>, Blocked))
      | (h, Panicked msg) \<Rightarrow> (h, Panicked msg)
      | (h, Blocked) \<Rightarrow> (h, Blocked))"

text \<open>
  The \<open>for\<close> loop. \<open>Dial n u\<close> is the result of the \<open>n\<close>-th dial of this call. A failed
  dial changes nothing and the loop goes on after the sleep; with every dial failing the
  loop never ends, which is the value \<open>None\<close>.
\<close>

partial_function (option) reconnect_loop ::
  "(nat \<Rightarrow> string \<Rightarrow> string + ethclient) \<Rightarrow> nat \<Rightarrow> nat \<Rightarrow> heap \<Rightarrow> (heap \<times> unit outcome) option" where
  "reconnect_loop Dial p n h =
     (case Dial n (url (clients h ! p)) of
        Inl err \<Rightarrow> reconnect_loop Dial p (Suc n) h
      | Inr client \<Rightarrow> Some (reconnected p client h))"

declare reconnect_loop.simps [code]

definition RecoverDisconnect ::
  "(nat \<Rightarrow> string \<Rightarrow> string + ethclient) \<Rightarrow> nat \<Rightarrow> heap \<Rightarrow> (heap \<times> unit outcome) option" where
  "RecoverDisconnect Dial p h =
     (if length (clients h) \<le> p then Some (h, Panicked nil_dereference)
      else reconnect_loop Dial p 0 (mark_failed p h))"

subsection \<open>The capability wrappers\<close>

text \<open>
  Arguments the wrappers only pass on. \<open>*big.Int\<close> block numbers are \<open>int option\<close>
  (nil is the latest block).
\<close>

typedecl Transaction
typedecl CallMsg
typedecl FilterQuery
typedecl HeaderChan
typedecl LogChan

text \<open>One constructor for each wrapper method, with the method's arguments after the
  context.\<close>

datatype request =
    BlockByHash Hash
  | BlockByNumber "int option"
  | HeaderByHash Hash
  | HeaderByNumber "int option"
  | TransactionByHash Hash
  | TransactionSender Transaction Hash nat
  | TransactionCount Hash
  | TransactionInBlock Hash nat
  | TransactionReceipt Hash
  | SyncProgress
  | SubscribeNewHead HeaderChan
  | NetworkID
  | BalanceAt Address "int option"
  | StorageAt Address Hash "int option"
  | CodeAt Address "int option"
  | NonceAt Address "int option"
  | FilterLogs FilterQuery
  | SubscribeFilterLogs FilterQuery LogChan
  | PendingBalanceAt Address
  | PendingStorageAt Address Hash
  | PendingCodeAt Address
  | PendingNonceAt Address
  | PendingTransactionCount
  | CallContract CallMsg "int option"
  | PendingCallContract CallMsg
  | SuggestGasPrice
  | EstimateGas CallMsg
  | SendTransaction Transaction

text \<open>
  Every wrapper has the same body: \<open>c.lock.Lock()\<close>, \<open>defer c.lock.Unlock()\<close>, then the
  method of the embedded client. \<open>rpc cl req\<close> is what connection \<open>cl\<close> answers to
  \<open>req\<close> at the time of the call, results and error together; the context is passed
  on and is part of what decides the answer. The methods of a nil \<open>*ethclient.Client\<close>
  dereference it and panic; the deferred \<open>Unlock\<close> runs all the same.
\<close>

definition SafeEthClient_call ::
  "(ethclient \<Rightarrow> request \<Rightarrow> 'r) \<Rightarrow> nat \<Rightarrow> request \<Rightarrow> heap \<Rightarrow> heap \<times> 'r outcome" where
  "SafeEthClient_call rpc p req h =
     (case Lock p h of
        (h, Returned _) \<Rightarrow>
          (case Client (clients h ! p) of
             None \<Rightarrow> (Unlock p h, Panicked nil_dereference)
           | Some cl \<Rightarrow> (Unlock p h, Returned (rpc cl req)))
      | (h, Panicked msg) \<Rightarrow> (h, Panicked msg)
      | (h, Blocked) \<Rightarrow> (h, Blocked))"

subsection \<open>A receiver\<close>

text \<open>The holder of the \<open><-chan struct{}\<close> that \<open>RegisterReConnectNotify\<close> returned
  can only receive from it.\<close>

definition receive :: "chan_ref \<Rightarrow> heap \<Rightarrow> heap \<times> bool outcome" where
  "receive c h = (let (cs, r) = chan_recv c (chans h) in (h\<lparr>chans := cs\<rparr>, r))"

subsection \<open>The first dial that succeeds\<close>

text \<open>Counting from the \<open>k\<close>-th dial, the \<open>n\<close> next ones fail and the one after them
  gives the connection \<open>cl\<close>.\<close>

definition first_success ::
  "(nat \<Rightarrow> string \<Rightarrow> string + ethclient) \<Rightarrow> string \<Rightarrow> nat \<Rightarrow> nat \<Rightarrow> ethclient \<Rightarrow> bool" where
  "first_success Dial u k n cl \<longleftrightarrow>
     Dial (k + n) u = Inr cl \<and> (\<forall>m<n. \<exists>e. Dial (k + m) u = Inl e)"

text \<open>The heap with the new connection in place, the registry of \<open>p\<close> empty and the
  channels \<open>cs\<close>.\<close>

definition after_reconnect :: "nat \<Rightarrow> ethclient \<Rightarrow> chan list \<Rightarrow> heap \<Rightarrow> heap" where
  "after_reconnect p cl cs h =
     h\<lparr>clients := (clients h)[p := (clients h ! p)
          \<lparr>Client := Some cl, ReConnect := [], Status := ConnectionOk\<rparr>],
       chans := cs\<rparr>"

subsection \<open>Reachable heaps and the state of the registries\<close>

text \<open>A channel as \<open>RegisterReConnectNotify\<close> makes it, not yet signalled.\<close>

definition chan_pending :: "chan \<Rightarrow> bool" where
  "chan_pending c \<longleftrightarrow> cap c = 1 \<and> buf c = 0 \<and> \<not> closed c"

text \<open>
  The registries \<open>rs\<close> (one for each client) over the channels \<open>cs\<close>: no name occurs
  twice in a registry, every registered channel exists and is pending, and no channel is
  registered twice, be it in one registry or in two.
\<close>

definition regs_ok :: "(string, chan_ref) gomap list \<Rightarrow> chan list \<Rightarrow> bool" where
  "regs_ok rs cs \<longleftrightarrow>
     (\<forall>p<length rs. distinct (map fst (rs ! p)) \<and>
        (\<forall>e\<in>set (rs ! p). snd e < length cs \<and> chan_pending (cs ! snd e))) \<and>
     (\<forall>p<length rs. \<forall>q<length rs. \<forall>e\<in>set (rs ! p). \<forall>f\<in>set (rs ! q).
        snd e = snd f \<longrightarrow> p = q \<and> e = f)"

definition registry_ok :: "heap \<Rightarrow> bool" where
  "registry_ok h \<longleftrightarrow> regs_ok (map ReConnect (clients h)) (chans h)"

text \<open>
  The heaps the functions of the file produce from the empty heap. The sections that run
  under the mutex are single steps; the statements outside it are steps of their own, so
  that steps of other goroutines come between them: \<open>disconnect\<close> is the first
  statement of \<open>RecoverDisconnect\<close> and \<open>reconnect\<close> what it does once a dial has
  succeeded; \<open>call_enter\<close> and \<open>call_leave\<close> are the \<open>Lock\<close> and the deferred
  \<open>Unlock\<close> of a wrapper, with the remote call between them; \<open>received\<close> is a
  receive by the holder of a returned channel. \<open>range_order\<close> lists a registry in
  another order, since \<open>range\<close> may visit it in any.
\<close>

inductive reachable :: "heap \<Rightarrow> bool" where
  start: "reachable \<lparr>clients = [], chans = []\<rparr>"
| new: "reachable h \<Longrightarrow> reachable (fst (NewSafeClient Dial rawurl h))"
| register: "reachable h \<Longrightarrow> reachable (fst (RegisterReConnectNotify p name h))"
| disconnect: "reachable h \<Longrightarrow> reachable (mark_failed p h)"
| reconnect: "reachable h \<Longrightarrow> reachable (fst (reconnected p cl h))"
| call_enter: "reachable h \<Longrightarrow> reachable (fst (Lock p h))"
| call_leave: "reachable h \<Longrightarrow> reachable (Unlock p h)"
| received: "reachable h \<Longrightarrow> reachable (fst (receive c h))"
| range_order: "reachable h \<Longrightarrow> set m = set (ReConnect (clients h ! p)) \<Longrightarrow>
     length m = length (ReConnect (clients h ! p)) \<Longrightarrow>
     reachable (upd_client p (\<lambda>c. c\<lparr>ReConnect := m\<rparr>) h)"

subsection \<open>Concrete requests\<close>

definition zero_hash :: Hash where
  "zero_hash = Hash_of (replicate 32 0)"

definition zero_address :: Address where
  "zero_address = Address_of (replicate 20 0)"

definition punish_request :: ObseleteUnlockForContract where
  "punish_request =
     \<lparr>ChannelIdentifier = zero_hash, BeneficiaryAddress = zero_address,
      LockHash = zero_hash, BeneficiaryTransferredAmount = 0, BeneficiaryNonce = 0,
      AdditionalHash = zero_hash, TokenNetworkAddress = zero_address, ChainID = 8888,
      OpenBlockNumber = 258, MerkleProof = []\<rparr>"

text \<open>A signing primitive that refuses the key, as \<open>crypto.Sign\<close> does for an invalid
  private key.\<close>

definition rejecting_SignData :: "nat \<Rightarrow> byte list \<Rightarrow> string + byte list" where
  "rejecting_SignData key data = Inl ''invalid private key''"

subsection \<open>Concrete dial results, answers and heaps\<close>

text \<open>A signing primitive that succeeds; as its signature it gives back the bytes it was
  given, so that they can be read off the result.\<close>

definition echo_SignData :: "nat \<Rightarrow> byte list \<Rightarrow> string + byte list" where
  "echo_SignData key data = Inr data"

definition geth_url :: string where
  "geth_url = ''ws://127.0.0.1:8546''"

text \<open>Dials that succeed, fail, and fail twice before they succeed.\<close>

definition working_Dial :: "string \<Rightarrow> string + ethclient" where
  "working_Dial u = Inr 7"


definition flaky_Dial :: "nat \<Rightarrow> string \<Rightarrow> string + ethclient" where
  "flaky_Dial n u = (if n < 2 then Inl ''connection refused'' else Inr 8)"



text \<open>One client with two registered names, the same after a reconnect, and the same
  after a third registration; two clients with one registered name each.\<close>

definition two_waiters :: heap where
  "two_waiters =
     \<lparr>clients = [\<lparr>Client = Some 7, lock = False, url = geth_url,
                  ReConnect = [(''alarm'', 1), (''blocknumber'', 0)], Status = ConnectionOk\<rparr>],
      chans = [\<lparr>cap = 1, buf = 0, closed = False\<rparr>, \<lparr>cap = 1, buf = 0, closed = False\<rparr>]\<rparr>"

definition two_waiters_notified :: heap where
  "two_waiters_notified =
     \<lparr>clients = [\<lparr>Client = Some 8, lock = False, url = geth_url, ReConnect = [],
                  Status = ConnectionOk\<rparr>],
      chans = [\<lparr>cap = 1, buf = 1, closed = True\<rparr>, \<lparr>cap = 1, buf = 1, closed = True\<rparr>]\<rparr>"

definition three_waiters :: heap where
  "three_waiters =
     \<lparr>clients = [\<lparr>Client = Some 7, lock = False, url = geth_url,
                  ReConnect = [(''sync'', 2), (''alarm'', 1), (''blocknumber'', 0)],
                  Status = ConnectionOk\<rparr>],
      chans = [\<lparr>cap = 1, buf = 0, closed = False\<rparr>, \<lparr>cap = 1, buf = 0, closed = False\<rparr>,
               \<lparr>cap = 1, buf = 0, closed = False\<rparr>]\<rparr>"

definition two_clients :: heap where
  "two_clients =
     \<lparr>clients = [\<lparr>Client = Some 7, lock = False, url = geth_url,
                  ReConnect = [(''alarm'', 0)], Status = ConnectionOk\<rparr>,
                \<lparr>Client = Some 7, lock = False, url = geth_url,
                  ReConnect = [(''alarm'', 1)], Status = ConnectionOk\<rparr>],
      chans = [\<lparr>cap = 1, buf = 0, closed = False\<rparr>, \<lparr>cap = 1, buf = 0, closed = False\<rparr>]\<rparr>"

text \<open>The two clients after a reconnect of the first; a connected client and one whose
  first dial failed.\<close>

definition first_notified :: heap where
  "first_notified =
     \<lparr>clients = [\<lparr>Client = Some 8, lock = False, url = geth_url, ReConnect = [],
                  Status = ConnectionOk\<rparr>,
                \<lparr>Client = Some 7, lock = False, url = geth_url,
                  ReConnect = [(''alarm'', 1)], Status = ConnectionOk\<rparr>],
      chans = [\<lparr>cap = 1, buf = 1, closed = True\<rparr>, \<lparr>cap = 1, buf = 0, closed = False\<rparr>]\<rparr>"


section \<open>Facts about the byte encodings\<close>

lemma length_Hash_bytes: "length (Hash_bytes h) = 32"
  using Hash_bytes [of h] by simp

lemma Hash_bytes_zero: "Hash_bytes zero_hash = replicate 32 0"
  by (simp add: zero_hash_def Hash_of_inverse)

lemma be_value_snoc: "be_value (bs @ [b]) = 256 * be_value bs + unat b"
  by (simp add: be_value_def)

lemma length_be_bytes: "length (be_bytes n i) = n"
  by (induction n arbitrary: i) simp_all

lemma unat_byte_of_shift:
  "unat (ucast (drop_bit k (v :: 64 word)) :: byte) = (unat v div 2 ^ k) mod 256"
  by (simp add: unsigned_ucast_eq unat_drop_bit_eq take_bit_eq_mod
      drop_bit_eq_div [where ?'a = nat])

lemma unat_byte_of_int: "0 \<le> i \<Longrightarrow> unat (of_int i :: byte) = nat i mod 256"
  by (simp add: unsigned_of_int take_bit_eq_mod nat_mod_distrib)

lemma byte_of_shift:
  "(ucast (drop_bit (8 * j) (v :: 64 word)) :: byte) = of_int (uint v div 256 ^ j)"
proof -
  have p: "(2::nat) ^ (8 * j) = 256 ^ j" by (simp add: power_mult)
  have "int (unat v) div int (256 ^ j) = int (unat v div 256 ^ j)"
    by (rule zdiv_int [symmetric])
  then have q: "uint v div 256 ^ j = int (unat v div 256 ^ j)"
    by simp
  have "unat (ucast (drop_bit (8 * j) v) :: byte) = unat (of_int (uint v div 256 ^ j) :: byte)"
    unfolding q by (simp add: unat_byte_of_shift p unat_of_nat)
  then show ?thesis by (simp only: word_unat_eq_iff)
qed

text \<open>Reading the digits back gives the number, reduced to the width written.\<close>

lemma be_value_be_bytes: "0 \<le> i \<Longrightarrow> be_value (be_bytes n i) = nat i mod 256 ^ n"
proof (induction n arbitrary: i)
  case 0
  show ?case by (simp add: be_value_def)
next
  case (Suc n)
  have d: "0 \<le> i div 256" using Suc.prems by simp
  have "be_value (be_bytes (Suc n) i) = 256 * (nat (i div 256) mod 256 ^ n) + nat i mod 256"
    using Suc.IH [OF d] Suc.prems by (simp add: be_value_snoc unat_byte_of_int)
  also have "nat (i div 256) = nat i div 256"
    using Suc.prems by (simp add: nat_div_distrib)
  also have "256 * (nat i div 256 mod 256 ^ n) + nat i mod 256 = nat i mod 256 ^ Suc n"
    by (simp add: mod_mult2_eq)
  finally show ?case .
qed

lemma PutUint64_be_bytes: "BigEndian_PutUint64 v = be_bytes 8 (uint v)"
  using byte_of_shift [of 7 v] byte_of_shift [of 6 v] byte_of_shift [of 5 v]
    byte_of_shift [of 4 v] byte_of_shift [of 3 v] byte_of_shift [of 2 v]
    byte_of_shift [of 1 v] byte_of_shift [of 0 v]
  by (simp add: BigEndian_PutUint64_def eval_nat_numeral div_mult2_eq [symmetric]
      zdiv_zmult2_eq [symmetric])

lemma be_value_PutUint64: "be_value (BigEndian_PutUint64 v) = unat v"
proof -
  have "unat v < 2 ^ 64" using unsigned_less [of v] by simp
  then show ?thesis
    by (simp add: PutUint64_be_bytes be_value_be_bytes)
qed

lemma length_PutUint64: "length (BigEndian_PutUint64 v) = 8"
  by (simp add: BigEndian_PutUint64_def)

lemma length_BigIntTo32Bytes: "length (BigIntTo32Bytes i) = 32"
  by (simp add: BigIntTo32Bytes_def length_be_bytes)

lemma be_value_BigIntTo32Bytes:
  "0 \<le> i \<Longrightarrow> i < 2 ^ 256 \<Longrightarrow> be_value (BigIntTo32Bytes i) = nat i"
proof -
  assume a: "0 \<le> i" and b: "i < 2 ^ 256"
  have "nat i < nat (2 ^ 256)" using a b by (simp only: nat_less_eq_zless)
  then have "nat i < 256 ^ 32" by simp
  then show ?thesis using a by (simp add: BigIntTo32Bytes_def be_value_be_bytes)
qed

lemma sign_buf_concat:
  "sign_buf w =
     Hash_bytes (LockHash w) @ Hash_bytes (ChannelIdentifier w) @
     BigEndian_PutUint64 (OpenBlockNumber w) @ BigIntTo32Bytes (ChainID w) @
     Hash_bytes (AdditionalHash w)"
  by (simp add: sign_buf_def Buffer_new_def Buffer_Write_def binary_Write_BigEndian_def)

section \<open>The signed byte string\<close>

text \<open>
  Claim C1. For every punish request and every signing primitive, the byte string that
  \<open>sign\<close> hands to \<open>utils.SignData\<close> to be hashed and signed is the lock hash (32
  bytes), then the channel identifier (32 bytes), then the open block number (8 bytes
  whose big-endian value is the number), then the chain identifier (32 bytes, whose
  big-endian value is the identifier when it lies in \<open>0 ..< 2 ^ 256\<close>), then the
  additional hash (32 bytes): 136 bytes, in that order. Nothing else enters: the result
  of \<open>sign\<close> is the same whatever the token network address, the beneficiary address,
  the beneficiary's amount and nonce and the merkle proof are.
\<close>

theorem sign_signs_the_canonical_layout:
  "sign SignData w key =
     (case SignData key
        (Hash_bytes (LockHash w) @ Hash_bytes (ChannelIdentifier w) @
         BigEndian_PutUint64 (OpenBlockNumber w) @ BigIntTo32Bytes (ChainID w) @
         Hash_bytes (AdditionalHash w)) of
        Inl err \<Rightarrow> Panicked err | Inr sig \<Rightarrow> Returned sig)
   \<and> length (Hash_bytes (LockHash w)) = 32
   \<and> length (Hash_bytes (ChannelIdentifier w)) = 32
   \<and> length (BigEndian_PutUint64 (OpenBlockNumber w)) = 8
   \<and> be_value (BigEndian_PutUint64 (OpenBlockNumber w)) = unat (OpenBlockNumber w)
   \<and> length (BigIntTo32Bytes (ChainID w)) = 32
   \<and> (0 \<le> ChainID w \<and> ChainID w < 2 ^ 256 \<longrightarrow>
        be_value (BigIntTo32Bytes (ChainID w)) = nat (ChainID w))
   \<and> length (Hash_bytes (AdditionalHash w)) = 32
   \<and> length (sign_buf w) = 136
   \<and> sign SignData
        (w\<lparr>TokenNetworkAddress := tna, BeneficiaryAddress := ba,
           BeneficiaryTransferredAmount := bta, BeneficiaryNonce := bn,
           MerkleProof := mp\<rparr>) key
      = sign SignData w key"
  by (simp add: sign_def sign_buf_concat length_Hash_bytes length_PutUint64
      be_value_PutUint64 length_BigIntTo32Bytes be_value_BigIntTo32Bytes)

theorem sign_signs_the_canonical_layout_witness:
  "(0 \<le> ChainID punish_request \<and> ChainID punish_request < 2 ^ 256)
   \<and> be_value (BigIntTo32Bytes (ChainID punish_request)) = 8888
   \<and> be_value (BigEndian_PutUint64 (OpenBlockNumber punish_request)) = 258
   \<and> sign echo_SignData punish_request 0 =
        Returned (replicate 32 0 @ replicate 32 0 @ [0, 0, 0, 0, 0, 0, 1, 2] @
          (replicate 30 0 @ [34, 184]) @ replicate 32 0)"
proof -
  have a: "BigIntTo32Bytes 8888 = replicate 30 0 @ [34, 184]"
    by code_simp
  have b: "BigEndian_PutUint64 258 = [0, 0, 0, 0, 0, 0, 1, 2]"
    by code_simp
  from sign_signs_the_canonical_layout [of echo_SignData punish_request 0] a b
  show ?thesis
    by (simp add: punish_request_def echo_SignData_def Hash_bytes_zero)
qed

section \<open>Facts about the heap, maps and channels\<close>

lemma length_clients_upd [simp]: "length (clients (upd_client p f h)) = length (clients h)"
  by (simp add: upd_client_def)

lemma chans_upd_client [simp]: "chans (upd_client p f h) = chans h"
  by (simp add: upd_client_def)

lemma clients_upd_client_same [simp]:
  "p < length (clients h) \<Longrightarrow> clients (upd_client p f h) ! p = f (clients h ! p)"
  by (simp add: upd_client_def)

lemma clients_upd_client_other [simp]:
  "q \<noteq> p \<Longrightarrow> clients (upd_client p f h) ! q = clients h ! q"
  by (simp add: upd_client_def)

lemma upd_client_upd_client [simp]:
  "upd_client p f (upd_client p g h) = upd_client p (f \<circ> g) h"
  by (cases "p < length (clients h)") (simp_all add: upd_client_def list_update_beyond)

lemma upd_client_id: "f (clients h ! p) = clients h ! p \<Longrightarrow> upd_client p f h = h"
  by (simp add: upd_client_def)

lemma upd_client_chans_update [simp]:
  "upd_client p f (h\<lparr>chans := cs\<rparr>) = (upd_client p f h)\<lparr>chans := cs\<rparr>"
  by (simp add: upd_client_def)

lemma map_entries_subset: "set (map_entries m) \<subseteq> set m"
  by (induction m rule: map_entries.induct) auto

lemma map_of_map_entries: "map_of (map_entries m) = map_of m"
proof (induction m rule: map_entries.induct)
  case 1 show ?case by simp
next
  case (2 e m)
  show ?case
  proof
    fix k
    show "map_of (map_entries (e # m)) k = map_of (e # m) k"
    proof (cases "k = fst e")
      case True then show ?thesis by (cases e) simp
    next
      case False
      have "map_of (filter (\<lambda>f. fst f \<noteq> fst e) m) k = map_of m k"
        using False by (induction m) auto
      then show ?thesis using 2 False by (cases e) simp
    qed
  qed
qed

lemma distinct_map_entries: "distinct (map fst (map_entries m))"
proof (induction m rule: map_entries.induct)
  case 1 show ?case by simp
next
  case (2 e m)
  have "fst e \<notin> fst ` set (map_entries (filter (\<lambda>f. fst f \<noteq> fst e) m))"
    using map_entries_subset [of "filter (\<lambda>f. fst f \<noteq> fst e) m"] by auto
  then show ?case using 2 by simp
qed

lemma map_entries_distinct: "distinct (map fst m) \<Longrightarrow> map_entries m = m"
proof (induction m)
  case Nil show ?case by simp
next
  case (Cons e m)
  have "filter (\<lambda>f. fst f \<noteq> fst e) m = m"
    using Cons.prems by (simp add: filter_id_conv image_iff) force
  then show ?case using Cons by simp
qed

lemma keys_map_entries: "fst ` set (map_entries m) = fst ` set m"
proof -
  have "dom (map_of (map_entries m)) = dom (map_of m)" by (simp add: map_of_map_entries)
  then show ?thesis by (simp add: dom_map_of_conv_image_fst)
qed

lemma delete_keys_filter: "delete_keys ks m = filter (\<lambda>e. fst e \<notin> set ks) m"
  unfolding delete_keys_def map_delete_def
proof (induction ks arbitrary: m)
  case Nil show ?case by simp
next
  case (Cons k ks)
  show ?case by (simp add: Cons conj_commute)
qed

lemma delete_all_keys: "fst ` set m \<subseteq> set ks \<Longrightarrow> delete_keys ks m = []"
  by (auto simp: delete_keys_filter filter_empty_conv)

lemma chan_send_Returned:
  "chan_send c cs = (cs', Returned u) \<longleftrightarrow>
     c < length cs \<and> \<not> closed (cs ! c) \<and> buf (cs ! c) < cap (cs ! c) \<and>
     cs' = cs[c := (cs ! c)\<lparr>buf := buf (cs ! c) + 1\<rparr>]"
  by (auto simp: chan_send_def)

lemma chan_close_Returned:
  "chan_close c cs = (cs', Returned u) \<longleftrightarrow>
     c < length cs \<and> \<not> closed (cs ! c) \<and> cs' = cs[c := (cs ! c)\<lparr>closed := True\<rparr>]"
  by (auto simp: chan_close_def)

lemma notify_range_Cons_Returned:
  "notify_range ((name, c) # es) keys cs = (r, Returned u) \<longleftrightarrow>
     c < length cs \<and> \<not> closed (cs ! c) \<and> buf (cs ! c) < cap (cs ! c) \<and>
     notify_range es (keys @ [name])
       (cs[c := (cs ! c)\<lparr>buf := buf (cs ! c) + 1, closed := True\<rparr>]) = (r, Returned u)"
  by (auto simp: chan_send_def chan_close_def Let_def split: prod.splits outcome.splits)

lemma notify_range_Returned:
  "notify_range es keys cs = ((keys', cs'), Returned u) \<Longrightarrow>
     keys' = keys @ map fst es \<and> length cs' = length cs \<and> distinct (map snd es) \<and>
     (\<forall>c \<in> snd ` set es. c < length cs \<and> \<not> closed (cs ! c) \<and> buf (cs ! c) < cap (cs ! c) \<and>
        cs' ! c = (cs ! c)\<lparr>buf := buf (cs ! c) + 1, closed := True\<rparr>) \<and>
     (\<forall>c. c \<notin> snd ` set es \<longrightarrow> cs' ! c = cs ! c)"
proof (induction es arbitrary: keys cs)
  case Nil
  then show ?case by simp
next
  case (Cons e es)
  obtain name c where e: "e = (name, c)" by (cases e)
  let ?cs = "cs[c := (cs ! c)\<lparr>buf := buf (cs ! c) + 1, closed := True\<rparr>]"
  from Cons.prems have c: "c < length cs" "\<not> closed (cs ! c)" "buf (cs ! c) < cap (cs ! c)"
    and rest: "notify_range es (keys @ [name]) ?cs = ((keys', cs'), Returned u)"
    by (simp_all add: e notify_range_Cons_Returned del: notify_range.simps)
  note ih = Cons.IH [OF rest]
  have fresh: "c \<notin> snd ` set es"
  proof
    assume "c \<in> snd ` set es"
    with ih have "\<not> closed (?cs ! c)" by blast
    with c show False by simp
  qed
  have "cs' ! c = ?cs ! c" using ih fresh by blast
  then have here: "cs' ! c = (cs ! c)\<lparr>buf := buf (cs ! c) + 1, closed := True\<rparr>"
    using c by simp
  have there: "\<forall>d \<in> snd ` set es. d < length cs \<and> \<not> closed (cs ! d) \<and> buf (cs ! d) < cap (cs ! d) \<and>
        cs' ! d = (cs ! d)\<lparr>buf := buf (cs ! d) + 1, closed := True\<rparr>"
  proof
    fix d assume d: "d \<in> snd ` set es"
    then have "d \<noteq> c" using fresh by blast
    then show "d < length cs \<and> \<not> closed (cs ! d) \<and> buf (cs ! d) < cap (cs ! d) \<and>
        cs' ! d = (cs ! d)\<lparr>buf := buf (cs ! d) + 1, closed := True\<rparr>"
      using ih d by auto
  qed
  have other: "\<forall>d. d \<notin> snd ` set (e # es) \<longrightarrow> cs' ! d = cs ! d"
    using ih by (auto simp: e)
  show ?case using ih c here there other fresh by (simp add: e)
qed

lemma notify_range_total:
  "distinct (map snd es) \<Longrightarrow>
   \<forall>c \<in> snd ` set es. c < length cs \<and> \<not> closed (cs ! c) \<and> buf (cs ! c) < cap (cs ! c) \<Longrightarrow>
   \<exists>cs'. notify_range es keys cs = ((keys @ map fst es, cs'), Returned ())"
proof (induction es arbitrary: keys cs)
  case Nil
  show ?case by simp
next
  case (Cons e es)
  obtain name c where e: "e = (name, c)" by (cases e)
  let ?cs = "cs[c := (cs ! c)\<lparr>buf := buf (cs ! c) + 1, closed := True\<rparr>]"
  have c: "c < length cs" "\<not> closed (cs ! c)" "buf (cs ! c) < cap (cs ! c)"
    using Cons.prems(2) by (simp_all add: e)
  have fresh: "c \<notin> snd ` set es" and d: "distinct (map snd es)"
    using Cons.prems(1) by (simp_all add: e)
  have "\<forall>d \<in> snd ` set es. d < length ?cs \<and> \<not> closed (?cs ! d) \<and> buf (?cs ! d) < cap (?cs ! d)"
    using Cons.prems(2) fresh by (auto simp: e nth_list_update)
  from Cons.IH [OF d this, of "keys @ [name]"]
  obtain cs' where "notify_range es (keys @ [name]) ?cs = (((keys @ [name]) @ map fst es, cs'), Returned ())"
    by blast
  then show ?case using c by (simp add: e notify_range_Cons_Returned del: notify_range.simps)
qed

section \<open>Facts about the operations\<close>

lemma unlock_after_lock:
  "p < length (clients h) \<Longrightarrow> \<not> lock (clients h ! p) \<Longrightarrow>
     Unlock p (upd_client p (\<lambda>c. c\<lparr>lock := True\<rparr>) h) = h"
proof -
  assume p: "p < length (clients h)" and l: "\<not> lock (clients h ! p)"
  have "(clients h ! p)\<lparr>lock := False\<rparr> = clients h ! p"
    using l by (cases "clients h ! p") simp
  then show ?thesis
    using p by (simp add: Unlock_def upd_client_def)
qed

lemma Lock_Returned:
  "Lock p h = (h', Returned u) \<longleftrightarrow>
     p < length (clients h) \<and> \<not> lock (clients h ! p) \<and> h' = upd_client p (\<lambda>c. c\<lparr>lock := True\<rparr>) h"
  by (auto simp: Lock_def)

lemma map_delete_absent: "map_of m k = None \<Longrightarrow> map_delete m k = m"
  by (auto simp: map_delete_def filter_id_conv map_of_eq_None_iff image_iff)

lemma Register_nil:
  "length (clients h) \<le> p \<Longrightarrow> RegisterReConnectNotify p name h = (h, Panicked nil_dereference)"
  by (simp add: RegisterReConnectNotify_def Lock_def)

lemma Register_blocked:
  "p < length (clients h) \<Longrightarrow> lock (clients h ! p) \<Longrightarrow>
     RegisterReConnectNotify p name h = (h, Blocked)"
  by (simp add: RegisterReConnectNotify_def Lock_def)

lemma Register_known:
  "p < length (clients h) \<Longrightarrow> \<not> lock (clients h ! p) \<Longrightarrow>
   map_of (ReConnect (clients h ! p)) name = Some ch \<Longrightarrow>
     RegisterReConnectNotify p name h = (h, Returned ch)"
  by (simp add: RegisterReConnectNotify_def Lock_def unlock_after_lock)

lemma release_after_update:
  "\<not> lock c \<Longrightarrow> c\<lparr>ReConnect := m, lock := False\<rparr> = c\<lparr>ReConnect := m\<rparr>"
  by (cases c) simp

lemma Register_new:
  assumes "p < length (clients h)" and "\<not> lock (clients h ! p)"
    and "map_of (ReConnect (clients h ! p)) name = None"
  shows "RegisterReConnectNotify p name h =
     (h\<lparr>clients := (clients h)[p := (clients h ! p)
           \<lparr>ReConnect := (name, length (chans h)) # ReConnect (clients h ! p)\<rparr>],
        chans := chans h @ [\<lparr>cap = 1, buf = 0, closed = False\<rparr>]\<rparr>,
      Returned (length (chans h)))"
proof -
  show ?thesis
    using assms
    by (simp add: RegisterReConnectNotify_def Lock_def chan_make_def map_store_def
        map_delete_absent Unlock_def upd_client_def release_after_update)
qed

lemma reconnect_loop_first_success:
  "Dial (k + n) (url (clients h ! p)) = Inr cl \<Longrightarrow>
   \<forall>m<n. \<exists>e. Dial (k + m) (url (clients h ! p)) = Inl e \<Longrightarrow>
     reconnect_loop Dial p k h = Some (reconnected p cl h)"
proof (induction n arbitrary: k)
  case 0
  then show ?case by (subst reconnect_loop.simps) simp
next
  case (Suc n)
  from Suc.prems(2) obtain e where e: "Dial k (url (clients h ! p)) = Inl e"
    by fastforce
  have "reconnect_loop Dial p (Suc k) h = Some (reconnected p cl h)"
  proof (rule Suc.IH)
    show "Dial (Suc k + n) (url (clients h ! p)) = Inr cl" using Suc.prems(1) by simp
    show "\<forall>m<n. \<exists>e. Dial (Suc k + m) (url (clients h ! p)) = Inl e"
      using Suc.prems(2) by (metis Suc_less_eq add_Suc_right add_Suc)
  qed
  then show ?case using e by (subst reconnect_loop.simps) simp
qed

lemma first_success_now: "Dial k u = Inr cl \<Longrightarrow> first_success Dial u k 0 cl"
  by (simp add: first_success_def)

lemma first_success_later:
  assumes "Dial k u = Inl e" and "first_success Dial u (Suc k) n cl"
  shows "first_success Dial u k (Suc n) cl"
proof -
  have "\<exists>e. Dial (k + m) u = Inl e" if "m < Suc n" for m
  proof (cases m)
    case 0 then show ?thesis using assms(1) by simp
  next
    case (Suc m')
    then show ?thesis using assms(2) that by (simp add: first_success_def)
  qed
  then show ?thesis using assms(2) by (simp add: first_success_def)
qed

lemma reconnect_loop_Some:
  assumes "reconnect_loop Dial p k h = Some r"
  shows "\<exists>n cl. first_success Dial (url (clients h ! p)) k n cl \<and> r = reconnected p cl h"
proof (rule reconnect_loop.raw_induct
    [where P = "\<lambda>Dial p k h r. \<exists>n cl. first_success Dial (url (clients h ! p)) k n cl \<and> r = reconnected p cl h",
      OF _ assms])
  fix loop :: "(nat \<Rightarrow> string \<Rightarrow> string + ethclient) \<Rightarrow> nat \<Rightarrow> nat \<Rightarrow> heap \<Rightarrow> (heap \<times> unit outcome) option"
  fix Dial p k h r
  assume ih: "\<And>Dial p k h r. loop Dial p k h = Some r \<Longrightarrow>
      \<exists>n cl. first_success Dial (url (clients h ! p)) k n cl \<and> r = reconnected p cl h"
  assume body: "(case Dial k (url (clients h ! p)) of
      Inl err \<Rightarrow> loop Dial p (Suc k) h | Inr client \<Rightarrow> Some (reconnected p client h)) = Some r"
  show "\<exists>n cl. first_success Dial (url (clients h ! p)) k n cl \<and> r = reconnected p cl h"
  proof (cases "Dial k (url (clients h ! p))")
    case (Inl e)
    with body have "loop Dial p (Suc k) h = Some r" by simp
    from ih [OF this] obtain n cl
      where "first_success Dial (url (clients h ! p)) (Suc k) n cl" and r: "r = reconnected p cl h"
      by blast
    then have "first_success Dial (url (clients h ! p)) k (Suc n) cl"
      using Inl by (blast intro: first_success_later)
    with r show ?thesis by blast
  next
    case (Inr cl)
    with body have "r = reconnected p cl h" by simp
    with Inr show ?thesis by (blast intro: first_success_now)
  qed
qed

lemma upd_client_nil: "length (clients h) \<le> p \<Longrightarrow> upd_client p f h = h"
  by (simp add: upd_client_def list_update_beyond)

lemma reconnected_nil:
  "length (clients h) \<le> p \<Longrightarrow> reconnected p cl h = (h, Panicked nil_dereference)"
  by (simp add: reconnected_def Lock_def upd_client_nil)

lemma reconnected_blocked:
  "p < length (clients h) \<Longrightarrow> lock (clients h ! p) \<Longrightarrow>
     reconnected p cl h = (upd_client p (\<lambda>c. c\<lparr>Status := ConnectionOk\<rparr>) h, Blocked)"
  by (simp add: reconnected_def Lock_def)

lemma notify_keys:
  "notify_range (map_entries m) [] cs = ((keys, cs'), Returned u) \<Longrightarrow> delete_keys keys m = []"
proof -
  assume "notify_range (map_entries m) [] cs = ((keys, cs'), Returned u)"
  then have "keys = map fst (map_entries m)"
    using notify_range_Returned [of "map_entries m" "[]" cs keys cs' u] by simp
  then have "set keys = fst ` set m" by (simp add: keys_map_entries)
  then show ?thesis by (simp add: delete_all_keys)
qed

lemma release_after_swap:
  "\<not> lock c \<Longrightarrow>
     c\<lparr>Status := s, Client := x, ReConnect := m, lock := False\<rparr> = c\<lparr>Client := x, ReConnect := m, Status := s\<rparr>"
  by (cases c) simp

lemma reconnected_done:
  assumes "p < length (clients h)" and "\<not> lock (clients h ! p)"
    and "notify_range (map_entries (ReConnect (clients h ! p))) [] (chans h) = ((keys, cs), Returned ())"
  shows "reconnected p cl h = (after_reconnect p cl cs h, Returned ())"
  using assms notify_keys [OF assms(3)]
  by (simp add: reconnected_def Lock_def Unlock_def upd_client_def after_reconnect_def
      release_after_swap)

lemma reconnected_Returned:
  assumes "reconnected p cl h = (h', Returned u)"
  shows "p < length (clients h) \<and> \<not> lock (clients h ! p) \<and>
     (\<exists>keys cs. notify_range (map_entries (ReConnect (clients h ! p))) [] (chans h)
         = ((keys, cs), Returned ()) \<and> h' = after_reconnect p cl cs h)"
proof -
  have p: "p < length (clients h)"
    using assms by (rule_tac ccontr) (simp add: reconnected_nil)
  have l: "\<not> lock (clients h ! p)"
    using assms p by (rule_tac ccontr) (simp add: reconnected_blocked)
  obtain keys cs out where n: "notify_range (map_entries (ReConnect (clients h ! p))) [] (chans h)
         = ((keys, cs), out)"
    by (metis surj_pair)
  have "out = Returned ()"
    using assms p l n
    by (cases out) (simp_all add: reconnected_def Lock_def upd_client_def)
  with n assms reconnected_done [OF p l, of keys cs cl] show ?thesis
    using p l by auto
qed

lemma reconnected_length [simp]:
  "length (clients (fst (reconnected p cl h))) = length (clients h)"
  by (simp add: reconnected_def Lock_def Unlock_def upd_client_def Let_def
      split: prod.splits outcome.splits)





section \<open>The registries of reachable heaps\<close>

lemma regs_ok_shrink:
  assumes ok: "regs_ok rs cs"
    and len: "length rs' = length rs" "length cs \<le> length cs'"
    and sub: "\<And>p. p < length rs \<Longrightarrow> set (rs' ! p) \<subseteq> set (rs ! p)"
    and dist: "\<And>p. p < length rs \<Longrightarrow> distinct (map fst (rs' ! p))"
    and same: "\<And>p e. p < length rs \<Longrightarrow> e \<in> set (rs' ! p) \<Longrightarrow> cs' ! snd e = cs ! snd e"
  shows "regs_ok rs' cs'"
  unfolding regs_ok_def
proof (intro conjI allI impI ballI)
  fix p assume p: "p < length rs'"
  then show "distinct (map fst (rs' ! p))" using dist len by simp
  fix e assume e: "e \<in> set (rs' ! p)"
  then have e': "e \<in> set (rs ! p)" using sub p len by auto
  then have "snd e < length cs" "chan_pending (cs ! snd e)"
    using ok p len by (auto simp: regs_ok_def)
  then show "snd e < length cs'" "chan_pending (cs' ! snd e)"
    using same [of p e] p e len by simp_all
next
  fix p q e f
  assume "p < length rs'" "q < length rs'" "e \<in> set (rs' ! p)" "f \<in> set (rs' ! q)" "snd e = snd f"
  then have "p < length rs" "q < length rs" "e \<in> set (rs ! p)" "f \<in> set (rs ! q)" "snd e = snd f"
    using sub len by auto
  then show "p = q" "e = f" using ok unfolding regs_ok_def by blast+
qed

lemma regs_ok_fresh:
  assumes ok: "regs_ok rs cs" and p: "p < length rs" and k: "name \<notin> fst ` set (rs ! p)"
  shows "regs_ok (rs[p := (name, length cs) # rs ! p]) (cs @ [\<lparr>cap = 1, buf = 0, closed = False\<rparr>])"
  unfolding regs_ok_def
proof (intro conjI allI impI ballI)
  fix q assume q: "q < length (rs[p := (name, length cs) # rs ! p])"
  show "distinct (map fst (rs[p := (name, length cs) # rs ! p] ! q))"
    using ok q p k by (cases "q = p") (auto simp: regs_ok_def)
  fix e assume e: "e \<in> set (rs[p := (name, length cs) # rs ! p] ! q)"
  then have "e = (name, length cs) \<or> e \<in> set (rs ! q)"
    using q p by (cases "q = p") auto
  then show "snd e < length (cs @ [\<lparr>cap = 1, buf = 0, closed = False\<rparr>])"
    "chan_pending ((cs @ [\<lparr>cap = 1, buf = 0, closed = False\<rparr>]) ! snd e)"
    using ok q by (auto simp: regs_ok_def nth_append chan_pending_def less_Suc_eq)
next
  fix q r e f
  assume a: "q < length (rs[p := (name, length cs) # rs ! p])"
    "r < length (rs[p := (name, length cs) # rs ! p])"
    "e \<in> set (rs[p := (name, length cs) # rs ! p] ! q)"
    "f \<in> set (rs[p := (name, length cs) # rs ! p] ! r)" "snd e = snd f"
  have old: "snd g < length cs" if "g \<in> set (rs ! s)" "s < length rs" for g s
    using ok that by (auto simp: regs_ok_def)
  have e: "(e = (name, length cs) \<and> q = p) \<or> e \<in> set (rs ! q)"
    using a p by (cases "q = p") auto
  have f: "(f = (name, length cs) \<and> r = p) \<or> f \<in> set (rs ! r)"
    using a p by (cases "r = p") auto
  have inj: "q = r \<and> e = f" if "e \<in> set (rs ! q)" "f \<in> set (rs ! r)"
    using ok that a unfolding regs_ok_def by simp
  show "q = r" using e f inj old [of e q] old [of f r] a by auto
  show "e = f" using e f inj old [of e q] old [of f r] a by auto
qed

lemma regs_ok_new: "regs_ok rs cs \<Longrightarrow> regs_ok (rs @ [[]]) cs"
  unfolding regs_ok_def
  by (auto simp: nth_append less_Suc_eq)

lemma registry_ok_start: "registry_ok \<lparr>clients = [], chans = []\<rparr>"
  by (simp add: registry_ok_def regs_ok_def)

lemma registry_ok_new: "registry_ok h \<Longrightarrow> registry_ok (fst (NewSafeClient Dial rawurl h))"
  by (cases "Dial rawurl") (simp_all add: registry_ok_def NewSafeClient_def regs_ok_new)

lemma registries_upd_client:
  "(\<And>c. ReConnect (f c) = ReConnect c) \<Longrightarrow>
     map ReConnect (clients (upd_client p f h)) = map ReConnect (clients h)"
  by (cases "p < length (clients h)")
    (simp_all add: upd_client_def list_update_beyond list_eq_iff_nth_eq nth_list_update)

lemma registry_ok_fields:
  "(\<And>c. ReConnect (f c) = ReConnect c) \<Longrightarrow> registry_ok (upd_client p f h) = registry_ok h"
  by (simp add: registry_ok_def registries_upd_client)

lemma registry_ok_Lock: "registry_ok h \<Longrightarrow> registry_ok (fst (Lock p h))"
  by (simp add: Lock_def registry_ok_fields)

lemma registry_ok_Unlock: "registry_ok h \<Longrightarrow> registry_ok (Unlock p h)"
  by (simp add: Unlock_def registry_ok_fields)

lemma registry_ok_mark_failed: "registry_ok h \<Longrightarrow> registry_ok (mark_failed p h)"
  by (simp add: mark_failed_def registry_ok_fields)

lemma registry_ok_register:
  assumes "registry_ok h"
  shows "registry_ok (fst (RegisterReConnectNotify p name h))"
proof -
  consider (nil) "length (clients h) \<le> p"
    | (blocked) "p < length (clients h)" "lock (clients h ! p)"
    | (known) ch where "p < length (clients h)" "\<not> lock (clients h ! p)"
        "map_of (ReConnect (clients h ! p)) name = Some ch"
    | (fresh) "p < length (clients h)" "\<not> lock (clients h ! p)"
        "map_of (ReConnect (clients h ! p)) name = None"
    by (cases "map_of (ReConnect (clients h ! p)) name") force+
  then show ?thesis
  proof cases
    case nil then show ?thesis using assms by (simp add: Register_nil)
  next
    case blocked then show ?thesis using assms by (simp add: Register_blocked)
  next
    case known then show ?thesis using assms by (simp add: Register_known)
  next
    case fresh
    have "name \<notin> fst ` set (map ReConnect (clients h) ! p)"
      using fresh by (simp add: map_of_eq_None_iff)
    from regs_ok_fresh [OF assms [unfolded registry_ok_def] _ this] fresh
    show ?thesis by (simp add: Register_new registry_ok_def map_update)
  qed
qed

lemma registry_ok_notify:
  assumes "registry_ok h" and "p < length (clients h)"
  shows "\<exists>cs. notify_range (map_entries (ReConnect (clients h ! p))) [] (chans h)
           = ((map fst (ReConnect (clients h ! p)), cs), Returned ())"
proof -
  let ?m = "ReConnect (clients h ! p)"
  have d: "distinct (map fst ?m)"
    and v: "\<forall>e\<in>set ?m. snd e < length (chans h) \<and> chan_pending (chans h ! snd e)"
    and i: "\<forall>e\<in>set ?m. \<forall>f\<in>set ?m. snd e = snd f \<longrightarrow> e = f"
    using assms unfolding registry_ok_def regs_ok_def by auto
  have "inj_on snd (set ?m)" using i by (auto simp: inj_on_def)
  then have "distinct (map snd ?m)"
    using d by (simp add: distinct_map)
  moreover have "\<forall>c\<in>snd ` set ?m. c < length (chans h) \<and> \<not> closed (chans h ! c) \<and>
      buf (chans h ! c) < cap (chans h ! c)"
    using v by (auto simp: chan_pending_def)
  ultimately show ?thesis
    using notify_range_total [of ?m "chans h" "[]"] d by (simp add: map_entries_distinct)
qed

lemma registry_ok_reconnected:
  assumes ok: "registry_ok h"
  shows "registry_ok (fst (reconnected p cl h))"
proof -
  consider (nil) "length (clients h) \<le> p"
    | (blocked) "p < length (clients h)" "lock (clients h ! p)"
    | (free) "p < length (clients h)" "\<not> lock (clients h ! p)"
    by force
  then show ?thesis
  proof cases
    case nil then show ?thesis using ok by (simp add: reconnected_nil)
  next
    case blocked then show ?thesis using ok by (simp add: reconnected_blocked registry_ok_fields)
  next
    case free
    let ?m = "ReConnect (clients h ! p)"
    let ?rs = "map ReConnect (clients h)"
    from registry_ok_notify [OF ok free(1)] obtain cs
      where n: "notify_range (map_entries ?m) [] (chans h) = ((map fst ?m, cs), Returned ())"
      by blast
    have m: "map_entries ?m = ?m"
      using ok free(1) by (simp add: registry_ok_def regs_ok_def map_entries_distinct)
    note facts = notify_range_Returned [OF n]
    have len: "length cs = length (chans h)" using facts by simp
    have untouched: "cs ! c = chans h ! c" if "c \<notin> snd ` set ?m" for c
      using facts that by (simp add: m)
    have r: "reconnected p cl h = (after_reconnect p cl cs h, Returned ())"
      using reconnected_done [OF free n] .
    have "regs_ok (?rs[p := []]) cs"
    proof (rule regs_ok_shrink [OF ok [unfolded registry_ok_def]])
      show "length (?rs[p := []]) = length ?rs" by simp
      show "length (chans h) \<le> length cs" using len by simp
      show "set (?rs[p := []] ! q) \<subseteq> set (?rs ! q)" if "q < length ?rs" for q
        using that by (cases "q = p") simp_all
      show "distinct (map fst (?rs[p := []] ! q))" if "q < length ?rs" for q
        using that ok by (cases "q = p") (simp_all add: registry_ok_def regs_ok_def)
      show "cs ! snd e = chans h ! snd e" if "q < length ?rs" "e \<in> set (?rs[p := []] ! q)" for q e
      proof -
        have qp: "q \<noteq> p" using that by (cases "q = p") simp_all
        then have e: "e \<in> set (?rs ! q)" using that by simp
        have "snd e \<notin> snd ` set ?m"
        proof
          assume "snd e \<in> snd ` set ?m"
          then obtain f where f: "f \<in> set (?rs ! p)" "snd e = snd f" using free(1) by auto
          with ok e that(1) free(1) have "q = p"
            unfolding registry_ok_def regs_ok_def by (simp only: length_map)
          with qp show False by simp
        qed
        then show ?thesis by (rule untouched)
      qed
    qed
    then show ?thesis
      using free(1) by (simp add: r registry_ok_def after_reconnect_def map_update)
  qed
qed

lemma registry_ok_receive: "registry_ok h \<Longrightarrow> registry_ok (fst (receive c h))"
proof -
  assume ok: "registry_ok h"
  let ?cs = "fst (chan_recv c (chans h))"
  have "regs_ok (map ReConnect (clients h)) ?cs"
  proof (rule regs_ok_shrink [OF ok [unfolded registry_ok_def]])
    show "length (chans h) \<le> length ?cs" by (simp add: chan_recv_def)
    show "?cs ! snd e = chans h ! snd e"
      if "q < length (map ReConnect (clients h))" "e \<in> set (map ReConnect (clients h) ! q)" for q e
    proof -
      have "buf (chans h ! snd e) = 0"
        using ok that unfolding registry_ok_def regs_ok_def chan_pending_def by blast
      then show ?thesis by (auto simp: chan_recv_def nth_list_update)
    qed
  qed (use ok in \<open>simp_all add: registry_ok_def regs_ok_def\<close>)
  then show ?thesis
    by (cases "chan_recv c (chans h)") (simp add: receive_def registry_ok_def)
qed

lemma registry_ok_range_order:
  assumes ok: "registry_ok h" and s: "set m = set (ReConnect (clients h ! p))"
    and l: "length m = length (ReConnect (clients h ! p))"
  shows "registry_ok (upd_client p (\<lambda>c. c\<lparr>ReConnect := m\<rparr>) h)"
proof (cases "p < length (clients h)")
  case False
  then show ?thesis using ok by (simp add: upd_client_nil)
next
  case True
  let ?m = "ReConnect (clients h ! p)"
  let ?rs = "map ReConnect (clients h)"
  have d: "distinct (map fst ?m)"
    using ok True by (simp add: registry_ok_def regs_ok_def)
  have "card (fst ` set m) = length m"
    using d s l by (metis distinct_card length_map set_map)
  then have dm: "distinct (map fst m)"
    by (metis card_distinct length_map set_map)
  have "regs_ok (?rs[p := m]) (chans h)"
  proof (rule regs_ok_shrink [OF ok [unfolded registry_ok_def]])
    show "set (?rs[p := m] ! q) \<subseteq> set (?rs ! q)" if "q < length ?rs" for q
      using that s True by (cases "q = p") simp_all
    show "distinct (map fst (?rs[p := m] ! q))" if "q < length ?rs" for q
      using that ok dm by (cases "q = p") (simp_all add: registry_ok_def regs_ok_def)
  qed simp_all
  then show ?thesis
    using True by (simp add: registry_ok_def upd_client_def map_update)
qed

lemma reachable_registry_ok: "reachable h \<Longrightarrow> registry_ok h"
proof (induction rule: reachable.induct)
  case start
  show ?case by (rule registry_ok_start)
next
  case (new h Dial rawurl)
  then show ?case by (simp add: registry_ok_new)
next
  case (register h p name)
  then show ?case by (simp add: registry_ok_register)
next
  case (disconnect h p)
  then show ?case by (simp add: registry_ok_mark_failed)
next
  case (reconnect h p cl)
  then show ?case by (simp add: registry_ok_reconnected)
next
  case (call_enter h p)
  then show ?case by (simp add: registry_ok_Lock)
next
  case (call_leave h p)
  then show ?case by (simp add: registry_ok_Unlock)
next
  case (received h c)
  then show ?case by (simp add: registry_ok_receive)
next
  case (range_order h m p)
  then show ?case by (simp add: registry_ok_range_order)
qed

section \<open>Facts about \<open>RecoverDisconnect\<close> and the wrappers\<close>

lemma map_of_in_entries: "map_of m k = Some v \<Longrightarrow> (k, v) \<in> set (map_entries m)"
  by (rule map_of_SomeD) (simp add: map_of_map_entries)

lemma in_entries_map_of: "(k, v) \<in> set (map_entries m) \<Longrightarrow> map_of m k = Some v"
  using map_of_is_SomeI [OF distinct_map_entries, of k v m] by (simp add: map_of_map_entries)

lemma mark_failed_client:
  "p < length (clients h) \<Longrightarrow>
     clients (mark_failed p h) ! p = (clients h ! p)\<lparr>Status := ConnectionFailed\<rparr>"
  by (simp add: mark_failed_def)


lemma mark_failed_heap [simp]:
  "length (clients (mark_failed p h)) = length (clients h)" "chans (mark_failed p h) = chans h"
  by (simp_all add: mark_failed_def)


lemma RecoverDisconnect_Some:
  assumes "RecoverDisconnect Dial p h = Some (h', out)"
  shows "(length (clients h) \<le> p \<and> h' = h \<and> out = Panicked nil_dereference) \<or>
     (p < length (clients h) \<and>
       (\<exists>n cl. first_success Dial (url (clients h ! p)) 0 n cl \<and>
          (h', out) = reconnected p cl (mark_failed p h)))"
proof (cases "p < length (clients h)")
  case False
  then show ?thesis using assms by (simp add: RecoverDisconnect_def)
next
  case True
  then have "reconnect_loop Dial p 0 (mark_failed p h) = Some (h', out)"
    using assms by (simp add: RecoverDisconnect_def)
  from reconnect_loop_Some [OF this] True show ?thesis
    by (simp add: mark_failed_client)
qed

lemma RecoverDisconnect_first_success:
  assumes "p < length (clients h)" and "first_success Dial (url (clients h ! p)) 0 n cl"
  shows "RecoverDisconnect Dial p h = Some (reconnected p cl (mark_failed p h))"
proof -
  have "first_success Dial (url (clients (mark_failed p h) ! p)) 0 n cl"
    using assms by (simp add: mark_failed_client)
  then have "reconnect_loop Dial p 0 (mark_failed p h) = Some (reconnected p cl (mark_failed p h))"
    using reconnect_loop_first_success [of Dial 0 n "mark_failed p h" p cl]
    by (simp add: first_success_def)
  then show ?thesis using assms(1) by (simp add: RecoverDisconnect_def)
qed


text \<open>What the section under the mutex has done when it returns.\<close>

lemma reconnected_fires_each_once:
  assumes "reconnected p cl h = (h', Returned u)"
  shows "p < length (clients h) \<and> \<not> lock (clients h ! p) \<and>
     length (clients h') = length (clients h) \<and> length (chans h') = length (chans h) \<and>
     clients h' ! p = (clients h ! p)\<lparr>Client := Some cl, ReConnect := [], Status := ConnectionOk\<rparr> \<and>
     (\<forall>name ch. map_of (ReConnect (clients h ! p)) name = Some ch \<longrightarrow>
        ch < length (chans h) \<and> \<not> closed (chans h ! ch) \<and>
        buf (chans h ! ch) < cap (chans h ! ch) \<and>
        chans h' ! ch = (chans h ! ch)\<lparr>buf := buf (chans h ! ch) + 1, closed := True\<rparr>) \<and>
     (\<forall>c. (\<forall>name. map_of (ReConnect (clients h ! p)) name \<noteq> Some c) \<longrightarrow>
        chans h' ! c = chans h ! c)"
proof -
  let ?m = "ReConnect (clients h ! p)"
  from reconnected_Returned [OF assms] obtain keys cs
    where p: "p < length (clients h)" and l: "\<not> lock (clients h ! p)"
      and n: "notify_range (map_entries ?m) [] (chans h) = ((keys, cs), Returned ())"
      and h': "h' = after_reconnect p cl cs h"
    by blast
  note facts = notify_range_Returned [OF n]
  have sent: "ch < length (chans h) \<and> \<not> closed (chans h ! ch) \<and>
        buf (chans h ! ch) < cap (chans h ! ch) \<and>
        chans h' ! ch = (chans h ! ch)\<lparr>buf := buf (chans h ! ch) + 1, closed := True\<rparr>"
    if "map_of ?m name = Some ch" for name ch
  proof -
    have "ch \<in> snd ` set (map_entries ?m)"
      using map_of_in_entries [OF that] by force
    with facts have "ch < length (chans h) \<and> \<not> closed (chans h ! ch) \<and>
        buf (chans h ! ch) < cap (chans h ! ch) \<and>
        cs ! ch = (chans h ! ch)\<lparr>buf := buf (chans h ! ch) + 1, closed := True\<rparr>"
      by blast
    then show ?thesis by (simp add: h' after_reconnect_def)
  qed
  have rest: "chans h' ! c = chans h ! c" if "\<forall>name. map_of ?m name \<noteq> Some c" for c
  proof -
    have "c \<notin> snd ` set (map_entries ?m)"
      using that by (auto dest: in_entries_map_of)
    with facts have "cs ! c = chans h ! c" by blast
    then show ?thesis by (simp add: h' after_reconnect_def)
  qed
  have "clients h' ! p = (clients h ! p)\<lparr>Client := Some cl, ReConnect := [], Status := ConnectionOk\<rparr>"
    "length (clients h') = length (clients h)" "length (chans h') = length (chans h)"
    using p facts by (simp_all add: h' after_reconnect_def)
  with p l sent rest show ?thesis by blast
qed


lemma call_forwarded:
  "p < length (clients h) \<Longrightarrow> \<not> lock (clients h ! p) \<Longrightarrow> Client (clients h ! p) = Some cl \<Longrightarrow>
     SafeEthClient_call rpc p req h = (h, Returned (rpc cl req))"
  by (simp add: SafeEthClient_call_def Lock_def unlock_after_lock)

lemma call_nil_client:
  "p < length (clients h) \<Longrightarrow> \<not> lock (clients h ! p) \<Longrightarrow> Client (clients h ! p) = None \<Longrightarrow>
     SafeEthClient_call rpc p req h = (h, Panicked nil_dereference)"
  by (simp add: SafeEthClient_call_def Lock_def unlock_after_lock)

lemma call_heap_unchanged: "fst (SafeEthClient_call rpc p req h) = h"
proof (cases "p < length (clients h) \<and> \<not> lock (clients h ! p)")
  case True
  then show ?thesis
    by (cases "Client (clients h ! p)") (simp_all add: call_forwarded call_nil_client)
next
  case False
  then show ?thesis by (auto simp: SafeEthClient_call_def Lock_def)
qed




text \<open>Whole calls stay among the reachable heaps.\<close>

lemma reachable_RecoverDisconnect:
  assumes "reachable h" and "RecoverDisconnect Dial p h = Some (h', out)"
  shows "reachable h'"
proof -
  from RecoverDisconnect_Some [OF assms(2)]
  consider "h' = h" | cl where "h' = fst (reconnected p cl (mark_failed p h))"
    by (metis fst_conv)
  then show ?thesis
    using assms(1) by cases (auto intro: reachable.reconnect reachable.disconnect)
qed

lemma reachable_call: "reachable h \<Longrightarrow> reachable (fst (SafeEthClient_call rpc p req h))"
  by (simp add: call_heap_unchanged)

section \<open>The concrete heaps\<close>

lemma two_waiters_built:
  "two_waiters =
     fst (RegisterReConnectNotify 0 ''alarm''
       (fst (RegisterReConnectNotify 0 ''blocknumber''
         (fst (NewSafeClient working_Dial geth_url \<lparr>clients = [], chans = []\<rparr>)))))"
  by (simp add: two_waiters_def NewSafeClient_def working_Dial_def RegisterReConnectNotify_def
      Lock_def Unlock_def upd_client_def chan_make_def map_store_def map_delete_def)

lemma reachable_two_waiters: "reachable two_waiters"
  unfolding two_waiters_built
  by (intro reachable.register reachable.new reachable.start)



lemma first_success_flaky: "first_success flaky_Dial u 0 2 8"
  by (simp add: first_success_def flaky_Dial_def less_Suc_eq eval_nat_numeral)

lemma reconnected_two_waiters:
  "reconnected 0 8 (mark_failed 0 two_waiters) =
     (\<lparr>clients = [\<lparr>Client = Some 8, lock = False, url = geth_url, ReConnect = [],
                   Status = ConnectionOk\<rparr>],
       chans = [\<lparr>cap = 1, buf = 1, closed = True\<rparr>, \<lparr>cap = 1, buf = 1, closed = True\<rparr>]\<rparr>,
      Returned ())"
  by (simp add: reconnected_def mark_failed_def two_waiters_def Lock_def Unlock_def
      upd_client_def chan_send_def chan_close_def delete_keys_def map_delete_def)

lemma RecoverDisconnect_two_waiters:
  "RecoverDisconnect flaky_Dial 0 two_waiters = Some (two_waiters_notified, Returned ())"
  using RecoverDisconnect_first_success [of 0 two_waiters flaky_Dial 2 8]
  by (simp add: first_success_flaky reconnected_two_waiters two_waiters_notified_def)
    (simp add: two_waiters_def)

lemma reconnected_two_clients:
  "reconnected 0 8 (mark_failed 0 two_clients) = (first_notified, Returned ())"
  by (simp add: reconnected_def mark_failed_def two_clients_def first_notified_def Lock_def
      Unlock_def upd_client_def chan_send_def chan_close_def delete_keys_def map_delete_def)

lemma RecoverDisconnect_two_clients:
  "RecoverDisconnect flaky_Dial 0 two_clients = Some (first_notified, Returned ())"
  using RecoverDisconnect_first_success [of 0 two_clients flaky_Dial 2 8]
  by (simp add: first_success_flaky reconnected_two_clients) (simp add: two_clients_def)


section \<open>The failure of the signing primitive\<close>

text \<open>
  Claim C6, as the code has it. \<open>sign\<close> has one result, the signature, and no error
  result. When \<open>utils.SignData\<close> fails with an error, \<open>sign\<close> panics with that error
  and returns nothing to its caller; when it succeeds, \<open>sign\<close> returns the signature.
\<close>

theorem sign_panics_when_signing_fails:
  "(SignData key (sign_buf w) = Inl err \<longrightarrow> sign SignData w key = Panicked err) \<and>
   (SignData key (sign_buf w) = Inr sig \<longrightarrow> sign SignData w key = Returned sig)"
  by (simp add: sign_def)

theorem sign_panics_when_signing_fails_witness:
  "rejecting_SignData 0 (sign_buf punish_request) = Inl ''invalid private key''
   \<and> sign rejecting_SignData punish_request 0 = Panicked ''invalid private key''
   \<and> echo_SignData 0 (sign_buf punish_request) = Inr (sign_buf punish_request)
   \<and> sign echo_SignData punish_request 0 = Returned (sign_buf punish_request)"
  using sign_panics_when_signing_fails
      [of rejecting_SignData 0 punish_request "''invalid private key''" "[]"]
    sign_panics_when_signing_fails
      [of echo_SignData 0 punish_request "[]" "sign_buf punish_request"]
  by (simp add: rejecting_SignData_def echo_SignData_def)

text \<open>
  Claim C6, as it is stated, asks that a failure of the signing primitive come back to
  the caller of \<open>sign\<close> as a failure value. With a primitive that refuses the key the
  call does not come back: it panics.
\<close>

theorem sign_failure_counterexample:
  "rejecting_SignData 0 (sign_buf punish_request) = Inl ''invalid private key''
   \<and> sign rejecting_SignData punish_request 0 = Panicked ''invalid private key''
   \<and> \<not> returned (sign rejecting_SignData punish_request 0)"
  by (simp add: sign_def rejecting_SignData_def)

section \<open>Notification on reconnect\<close>

text \<open>
  Claim C3. Whenever \<open>RecoverDisconnect\<close> returns, some dial has succeeded, and for
  every name that the registry of the client held, the channel registered under it was
  open before and is closed now and holds exactly one signal more than before: one send
  for each registered channel. No two names shared a channel, and a channel that was
  under no name is as it was. The registry is empty on return, the client holds the new
  connection, its status is \<open>ConnectionOk\<close> and its mutex is free.
\<close>

theorem RecoverDisconnect_fires_each_once:
  assumes "RecoverDisconnect Dial p h = Some (h', Returned ())"
  shows "p < length (clients h) \<and> length (clients h') = length (clients h) \<and>
     ReConnect (clients h' ! p) = [] \<and>
     (\<forall>name ch. map_of (ReConnect (clients h ! p)) name = Some ch \<longrightarrow>
        ch < length (chans h) \<and> \<not> closed (chans h ! ch) \<and>
        buf (chans h' ! ch) = buf (chans h ! ch) + 1 \<and> closed (chans h' ! ch)) \<and>
     (\<forall>c. (\<forall>name. map_of (ReConnect (clients h ! p)) name \<noteq> Some c) \<longrightarrow>
        chans h' ! c = chans h ! c) \<and>
     (\<exists>n cl. first_success Dial (url (clients h ! p)) 0 n cl \<and>
        Client (clients h' ! p) = Some cl) \<and>
     Status (clients h' ! p) = ConnectionOk \<and> \<not> lock (clients h' ! p)"
proof -
  from RecoverDisconnect_Some [OF assms] obtain n cl
    where p: "p < length (clients h)"
      and d: "first_success Dial (url (clients h ! p)) 0 n cl"
      and r: "reconnected p cl (mark_failed p h) = (h', Returned ())"
    by auto
  note f = reconnected_fires_each_once [OF r]
  have c: "clients h' ! p =
      (clients h ! p)\<lparr>Client := Some cl, ReConnect := [], Status := ConnectionOk\<rparr>"
    using f p by (simp add: mark_failed_client)
  have l: "\<not> lock (clients h ! p)" using f p by (simp add: mark_failed_client)
  have sent: "ch < length (chans h) \<and> \<not> closed (chans h ! ch) \<and>
        buf (chans h' ! ch) = buf (chans h ! ch) + 1 \<and> closed (chans h' ! ch)"
    if "map_of (ReConnect (clients h ! p)) name = Some ch" for name ch
  proof -
    have "map_of (ReConnect (clients (mark_failed p h) ! p)) name = Some ch"
      using that p by (simp add: mark_failed_client)
    with f have "ch < length (chans h) \<and> \<not> closed (chans h ! ch) \<and>
        chans h' ! ch = (chans h ! ch)\<lparr>buf := buf (chans h ! ch) + 1, closed := True\<rparr>"
      by (simp del: map_of_eq_Some_iff)
    then show ?thesis by simp
  qed
  have rest: "chans h' ! c = chans h ! c"
    if "\<forall>name. map_of (ReConnect (clients h ! p)) name \<noteq> Some c" for c
  proof -
    have "\<forall>name. map_of (ReConnect (clients (mark_failed p h) ! p)) name \<noteq> Some c"
      using that p by (simp add: mark_failed_client)
    with f show ?thesis by (simp del: map_of_eq_Some_iff)
  qed
  have "length (clients h') = length (clients h)" using f by simp
  with p d c l sent rest show ?thesis by (simp del: map_of_eq_Some_iff) blast
qed

theorem RecoverDisconnect_fires_each_once_witness:
  "RecoverDisconnect flaky_Dial 0 two_clients = Some (first_notified, Returned ())
   \<and> ReConnect (clients two_clients ! 0) = [(''alarm'', 0)]
   \<and> ReConnect (clients first_notified ! 0) = []
   \<and> map_of (ReConnect (clients two_clients ! 0)) ''alarm'' = Some 0
   \<and> chans two_clients ! 0 = \<lparr>cap = 1, buf = 0, closed = False\<rparr>
   \<and> chans first_notified ! 0 = \<lparr>cap = 1, buf = 1, closed = True\<rparr>
   \<and> (\<forall>name. map_of (ReConnect (clients two_clients ! 0)) name \<noteq> Some 1)
   \<and> chans first_notified ! 1 = chans two_clients ! 1
   \<and> first_success flaky_Dial (url (clients two_clients ! 0)) 0 2 8
   \<and> Client (clients first_notified ! 0) = Some 8"
  using RecoverDisconnect_fires_each_once [OF RecoverDisconnect_two_clients]
    RecoverDisconnect_two_clients first_success_flaky
  by (simp add: two_clients_def first_notified_def)

text \<open>
  Claim C9. In every heap that the functions of the file produce, each channel in a
  registry is one that \<open>RegisterReConnectNotify\<close> made with capacity 1, and it is
  still open and empty. So the loop of \<open>RecoverDisconnect\<close> that sends one signal to
  every registered channel runs to its end with no receiver: no send blocks and none
  panics. With the mutex free the section under it returns, and so does
  \<open>RecoverDisconnect\<close> once a dial succeeds.
\<close>

theorem registered_channels_never_block:
  assumes "reachable h" and "p < length (clients h)"
  shows "(\<forall>e\<in>set (ReConnect (clients h ! p)).
        snd e < length (chans h) \<and> cap (chans h ! snd e) = 1 \<and>
        buf (chans h ! snd e) = 0 \<and> \<not> closed (chans h ! snd e)) \<and>
     (\<exists>cs. notify_range (map_entries (ReConnect (clients h ! p))) [] (chans h)
        = ((map fst (ReConnect (clients h ! p)), cs), Returned ())) \<and>
     (\<not> lock (clients h ! p) \<longrightarrow> snd (reconnected p cl h) = Returned ()) \<and>
     (\<not> lock (clients h ! p) \<and> first_success Dial (url (clients h ! p)) 0 n cl \<longrightarrow>
        (\<exists>h'. RecoverDisconnect Dial p h = Some (h', Returned ())))"
proof -
  have ok: "registry_ok h" using assms(1) by (rule reachable_registry_ok)
  have made: "\<forall>e\<in>set (ReConnect (clients h ! p)).
        snd e < length (chans h) \<and> cap (chans h ! snd e) = 1 \<and>
        buf (chans h ! snd e) = 0 \<and> \<not> closed (chans h ! snd e)"
    using ok assms(2) by (simp add: registry_ok_def regs_ok_def chan_pending_def)
  from registry_ok_notify [OF ok assms(2)] obtain cs
    where n: "notify_range (map_entries (ReConnect (clients h ! p))) [] (chans h)
        = ((map fst (ReConnect (clients h ! p)), cs), Returned ())"
    by blast
  have swap: "snd (reconnected p cl h) = Returned ()" if "\<not> lock (clients h ! p)"
    using reconnected_done [OF assms(2) that n] by simp
  have rec: "\<exists>h'. RecoverDisconnect Dial p h = Some (h', Returned ())"
    if l: "\<not> lock (clients h ! p)" and d: "first_success Dial (url (clients h ! p)) 0 n cl"
  proof -
    have ok': "registry_ok (mark_failed p h)" using ok by (rule registry_ok_mark_failed)
    from registry_ok_notify [OF ok', of p] assms(2) obtain cs'
      where "notify_range (map_entries (ReConnect (clients (mark_failed p h) ! p))) []
          (chans (mark_failed p h))
        = ((map fst (ReConnect (clients (mark_failed p h) ! p)), cs'), Returned ())"
      by auto
    then have "reconnected p cl (mark_failed p h)
        = (after_reconnect p cl cs' (mark_failed p h), Returned ())"
      using assms(2) l by (intro reconnected_done) (simp_all add: mark_failed_client)
    then show ?thesis
      using RecoverDisconnect_first_success [OF assms(2) d] by simp
  qed
  from made n swap rec show ?thesis by blast
qed

theorem registered_channels_never_block_witness:
  "reachable two_waiters \<and> 0 < length (clients two_waiters)
   \<and> ReConnect (clients two_waiters ! 0) = [(''alarm'', 1), (''blocknumber'', 0)]
   \<and> cap (chans two_waiters ! 1) = 1 \<and> buf (chans two_waiters ! 1) = 0
   \<and> \<not> closed (chans two_waiters ! 1)
   \<and> notify_range (map_entries (ReConnect (clients two_waiters ! 0))) [] (chans two_waiters)
       = (([''alarm'', ''blocknumber''], chans two_waiters_notified), Returned ())
   \<and> \<not> lock (clients two_waiters ! 0)
   \<and> snd (reconnected 0 8 two_waiters) = Returned ()
   \<and> first_success flaky_Dial (url (clients two_waiters ! 0)) 0 2 8
   \<and> RecoverDisconnect flaky_Dial 0 two_waiters = Some (two_waiters_notified, Returned ())"
proof -
  have p: "0 < length (clients two_waiters)" by (simp add: two_waiters_def)
  have n: "notify_range (map_entries (ReConnect (clients two_waiters ! 0))) [] (chans two_waiters)
       = (([''alarm'', ''blocknumber''], chans two_waiters_notified), Returned ())"
    by (simp add: two_waiters_def two_waiters_notified_def chan_send_def chan_close_def)
  have r: "RecoverDisconnect flaky_Dial 0 two_waiters = Some (two_waiters_notified, Returned ())"
    by (simp add: RecoverDisconnect_two_waiters two_waiters_notified_def)
  from registered_channels_never_block [OF reachable_two_waiters p, of 8 flaky_Dial 2]
    reachable_two_waiters p n r first_success_flaky
  show ?thesis by (simp add: two_waiters_def)
qed

section \<open>Registration\<close>

text \<open>
  Claim C4. When a name is registered in a client whose mutex is free,
  \<open>RegisterReConnectNotify\<close> returns the channel registered under that name and
  leaves the heap as it is: no entry is added and no channel is made. So when a call has
  returned a channel, the same call made again on the heap it left returns the same
  channel and changes nothing.
\<close>

theorem Register_twice_same_channel:
  "(p < length (clients h) \<and> \<not> lock (clients h ! p) \<and>
      map_of (ReConnect (clients h ! p)) name = Some ch \<longrightarrow>
        RegisterReConnectNotify p name h = (h, Returned ch)) \<and>
   (RegisterReConnectNotify p name h = (h1, Returned ch1) \<longrightarrow>
        RegisterReConnectNotify p name h1 = (h1, Returned ch1))"
proof (intro conjI impI)
  assume "p < length (clients h) \<and> \<not> lock (clients h ! p) \<and>
      map_of (ReConnect (clients h ! p)) name = Some ch"
  then show "RegisterReConnectNotify p name h = (h, Returned ch)"
    by (simp add: Register_known)
next
  assume r: "RegisterReConnectNotify p name h = (h1, Returned ch1)"
  have p: "p < length (clients h)"
    using r by (rule_tac ccontr) (simp add: Register_nil)
  have l: "\<not> lock (clients h ! p)"
    using r p by (rule_tac ccontr) (simp add: Register_blocked)
  show "RegisterReConnectNotify p name h1 = (h1, Returned ch1)"
  proof (cases "map_of (ReConnect (clients h ! p)) name")
    case (Some ch)
    with r p l have "h1 = h" "ch1 = ch" by (simp_all add: Register_known)
    then show ?thesis using Some p l by (simp add: Register_known)
  next
    case None
    from r have h1: "h1 = h\<lparr>clients := (clients h)[p := (clients h ! p)
           \<lparr>ReConnect := (name, length (chans h)) # ReConnect (clients h ! p)\<rparr>],
        chans := chans h @ [\<lparr>cap = 1, buf = 0, closed = False\<rparr>]\<rparr>"
      and ch1: "ch1 = length (chans h)"
      by (auto simp: Register_new [OF p l None])
    have "p < length (clients h1)" "\<not> lock (clients h1 ! p)"
      "map_of (ReConnect (clients h1 ! p)) name = Some ch1"
      using p l by (simp_all add: h1 ch1)
    then show ?thesis by (rule Register_known)
  qed
qed

theorem Register_twice_same_channel_witness:
  "(0 < length (clients two_waiters) \<and> \<not> lock (clients two_waiters ! 0) \<and>
      map_of (ReConnect (clients two_waiters ! 0)) ''alarm'' = Some 1)
   \<and> RegisterReConnectNotify 0 ''alarm'' two_waiters = (two_waiters, Returned 1)
   \<and> RegisterReConnectNotify 0 ''sync'' two_waiters = (three_waiters, Returned 2)
   \<and> RegisterReConnectNotify 0 ''sync'' three_waiters = (three_waiters, Returned 2)"
proof -
  have a: "0 < length (clients two_waiters) \<and> \<not> lock (clients two_waiters ! 0) \<and>
      map_of (ReConnect (clients two_waiters ! 0)) ''alarm'' = Some 1"
    by (simp add: two_waiters_def)
  have b: "RegisterReConnectNotify 0 ''sync'' two_waiters = (three_waiters, Returned 2)"
    by (simp add: two_waiters_def three_waiters_def RegisterReConnectNotify_def
      Lock_def Unlock_def upd_client_def chan_make_def map_store_def map_delete_def)
  from Register_twice_same_channel [of 0 two_waiters "''alarm''" 1 two_waiters 1]
    Register_twice_same_channel [of 0 two_waiters "''sync''" 1 three_waiters 2] a b
  show ?thesis by simp
qed



section \<open>The mutex, the wrappers and the other clients\<close>

text \<open>
  Claim C10. A wrapper leaves the heap as it found it, whatever the request and
  whatever the remote end answers, and also when it blocks on the mutex or panics on a
  nil connection: the url, the registry, the status and the connection of the client are
  the same after the call. While the remote call is under way, between \<open>Lock\<close> and the
  deferred \<open>Unlock\<close>, these four fields are the same as well. The other functions of
  the file are \<open>NewSafeClient\<close>, \<open>RegisterReConnectNotify\<close> and
  \<open>RecoverDisconnect\<close>.
\<close>

theorem wrappers_leave_the_client_unchanged:
  "fst (SafeEthClient_call rpc p req h) = h \<and>
   url (clients (fst (SafeEthClient_call rpc p req h)) ! p) = url (clients h ! p) \<and>
   ReConnect (clients (fst (SafeEthClient_call rpc p req h)) ! p) = ReConnect (clients h ! p) \<and>
   Status (clients (fst (SafeEthClient_call rpc p req h)) ! p) = Status (clients h ! p) \<and>
   Client (clients (fst (SafeEthClient_call rpc p req h)) ! p) = Client (clients h ! p) \<and>
   url (clients (fst (Lock p h)) ! p) = url (clients h ! p) \<and>
   ReConnect (clients (fst (Lock p h)) ! p) = ReConnect (clients h ! p) \<and>
   Status (clients (fst (Lock p h)) ! p) = Status (clients h ! p) \<and>
   Client (clients (fst (Lock p h)) ! p) = Client (clients h ! p)"
  by (simp add: call_heap_unchanged) (simp add: Lock_def)






end
